theory Spec2Isabelle
  imports Main "HOL-Library.Extended_Nat" "HOL-Library.Multiset" "HOL-Library.Code_Target_Nat"
begin

section \<open>Tower of Hanoi: the puzzle engine of \<^verbatim>\<open>Game.tsx\<close>\<close>

text \<open>
  The development embeds the logic of the Tower of Hanoi visualiser: the initial peg
  layout, the recursive move generator with and without its recursion trace, the
  Frame-Stewart move counter, the move applicator and the derivation of the displayed
  call stack.

  Numbers. The source computes on JavaScript numbers. Peg indices, depths and disk sizes
  are array indices and sizes, modelled as \<^typ>\<open>nat\<close>; the disk count \<open>n\<close> of the
  generator is an \<^typ>\<open>int\<close>, since the source guards it with \<open>n <= 0\<close>; the peg count
  of the move counter is an \<^typ>\<open>int\<close> as well, since the source decrements it without a
  guard. The move counter computes numbers as large as \<open>2^k\<close>, where doubles round:
  its results are values of \<^typ>\<open>enat\<close>, a non-negative integer that is a double or
  \<open>\<infinity>\<close> for \<open>Infinity\<close>, and its arithmetic rounds as doubles do. The user interface
  clamps both counts to the range from 1 (pegs: 2) to 8.
\<close>

subsection \<open>Data\<close>

type_synonym Move = "nat \<times> nat"

datatype phase = Enter | Move | Exit

record RecursionStep =
  step_depth :: nat
  step_n :: int
  step_from :: nat
  step_to :: nat
  step_aux :: "nat list"
  step_phase :: phase

text \<open>A peg is the list of its disks from bottom to top, so the top disk is the last one.\<close>

type_synonym rods = "nat list list"

subsection \<open>\<^verbatim>\<open>generateInitialRods\<close>\<close>

text \<open>
  \<^verbatim>\<open>Array.from({ length: pegs }, () => [])\<close> followed by the assignment to \<open>rods[0]\<close>,
  which extends an empty array to length one.
\<close>

definition generateInitialRods :: "nat \<Rightarrow> nat \<Rightarrow> rods" where
  "generateInitialRods pegs disks =
     (let rods = replicate pegs [];
          row = map (\<lambda>i. disks - i) [0..<disks]
      in if pegs = 0 then [row] else rods[0 := row])"

subsection \<open>\<^verbatim>\<open>computeMoves\<close> and \<^verbatim>\<open>computeMovesWithTrace\<close>\<close>

text \<open>
  Both functions append to buffers passed by reference; the model passes the buffers in
  and returns them. \<open>aux[0]\<close> and \<open>aux.slice(1)\<close> are only reached with a non-empty \<open>aux\<close>.
\<close>

function computeMoves :: "int \<Rightarrow> nat \<Rightarrow> nat \<Rightarrow> nat list \<Rightarrow> Move list \<Rightarrow> Move list" where
  "computeMoves n from to aux out =
     (if n \<le> 0 then out
      else if n = 1 then out @ [(from, to)]
      else if length aux = 0 then out @ [(from, to)]
      else
        (let temp = aux ! 0;
             restAux = drop 1 aux;
             out1 = computeMoves (n - 1) from temp (to # restAux) out;
             out2 = out1 @ [(from, to)]
         in computeMoves (n - 1) temp to (from # restAux) out2))"
  by pat_completeness auto
termination
  by (relation "measure (\<lambda>(n, from, to, aux, out). nat n)") auto

definition mkStep :: "nat \<Rightarrow> int \<Rightarrow> nat \<Rightarrow> nat \<Rightarrow> nat list \<Rightarrow> phase \<Rightarrow> RecursionStep" where
  "mkStep depth n from to aux ph =
     \<lparr>step_depth = depth, step_n = n, step_from = from, step_to = to,
      step_aux = aux, step_phase = ph\<rparr>"

function computeMovesWithTrace ::
  "int \<Rightarrow> nat \<Rightarrow> nat \<Rightarrow> nat list \<Rightarrow> Move list \<Rightarrow> RecursionStep list \<Rightarrow> nat
     \<Rightarrow> Move list \<times> RecursionStep list" where
  "computeMovesWithTrace n from to aux out trace depth =
     (if n \<le> 0 then (out, trace)
      else
        (let trace0 = trace @ [mkStep depth n from to aux Enter] in
         if n = 1 then
           (out @ [(from, to)],
            trace0 @ [mkStep depth n from to aux Move] @ [mkStep depth n from to aux Exit])
         else if length aux = 0 then
           (out @ [(from, to)],
            trace0 @ [mkStep depth n from to aux Move] @ [mkStep depth n from to aux Exit])
         else
           (let temp = aux ! 0;
                restAux = drop 1 aux;
                (out1, trace1) =
                   computeMovesWithTrace (n - 1) from temp (to # restAux) out trace0 (depth + 1);
                out2 = out1 @ [(from, to)];
                trace2 = trace1 @ [mkStep depth n from to aux Move];
                (out3, trace3) =
                   computeMovesWithTrace (n - 1) temp to (from # restAux) out2 trace2 (depth + 1)
            in (out3, trace3 @ [mkStep depth n from to aux Exit]))))"
  by pat_completeness auto
termination
  by (relation "measure (\<lambda>(n, from, to, aux, out, trace, depth). nat n)") auto

text \<open>
  \<^verbatim>\<open>startSolve\<close> (and the first click on \<^verbatim>\<open>stepSolve\<close>): the auxiliary pegs are all pegs
  but the first and the last, in ascending order, and both buffers start empty at depth
  0. The peg count held by the component is at least 2.
\<close>

definition startSolve :: "nat \<Rightarrow> nat \<Rightarrow> Move list \<times> RecursionStep list" where
  "startSolve pegs disks =
     (let aux = filter (\<lambda>i. i \<noteq> 0 \<and> i \<noteq> pegs - 1) [0..<pegs]
      in computeMovesWithTrace (int disks) 0 (pegs - 1) aux [] [] 0)"

subsection \<open>\<^verbatim>\<open>minimalMoves\<close>\<close>

text \<open>
  The table \<open>memo\<close> is keyed by the string \<open>p,k\<close>, which determines the pair; the model
  keys it by the pair. The \<open>for\<close> loop over \<open>x = 1, ..., k - 1\<close> is a fold that threads
  the running minimum and the table, in the order in which the source evaluates
  \<open>2 * M(p, x) + M(p - 1, k - x)\<close>; its counter is exact, since a loop that counts up to
  \<open>2^53\<close> does not end in practice. The disk count is a \<^typ>\<open>nat\<close>: for a negative
  exponent \<open>Math.pow(2, k)\<close> is not an integer.
\<close>

text \<open>
  Doubles. Every integer below \<open>2^53\<close> is a double; from there on the doubles around
  \<open>x\<close> are the multiples of \<open>ulp x\<close>, which doubles with every power of two. An
  arithmetic result is rounded to the nearest double, a tie to the one with the even
  multiple, and a rounded result of \<open>2^1024\<close> or more is \<open>Infinity\<close>.
\<close>

function ulp :: "nat \<Rightarrow> nat" where
  "ulp x = (if x < 2 ^ 53 then 1 else 2 * ulp (x div 2))"
  by pat_completeness auto
termination
  by (relation "measure (\<lambda>x. x)") auto

definition roundDouble :: "nat \<Rightarrow> enat" where
  "roundDouble x =
     (let u = ulp x;
          q = x div u;
          r = x mod u;
          q' = (if 2 * r < u then q
                else if u < 2 * r then q + 1
                else if even q then q else q + 1);
          y = q' * u
      in if y < 2 ^ 1024 then enat y else \<infinity>)"

text \<open>
  \<open>Math.pow(2, k) - 1\<close>: the power is exact up to \<open>k = 1023\<close> and \<open>Infinity\<close> beyond, the
  subtraction rounds. \<open>2 * a\<close> and \<open>a + b\<close> on the values of the move counter, and
  \<open>p - 1\<close> on the peg count, round as well; rounding is symmetric around 0.
\<close>

definition pow2minus1 :: "nat \<Rightarrow> enat" where
  "pow2minus1 k = (if k < 1024 then roundDouble (2 ^ k - 1) else \<infinity>)"

definition times2 :: "enat \<Rightarrow> enat" where
  "times2 a = (case a of enat x \<Rightarrow> roundDouble (2 * x) | \<infinity> \<Rightarrow> \<infinity>)"

definition plusDouble :: "enat \<Rightarrow> enat \<Rightarrow> enat" where
  "plusDouble a b =
     (case a of
        enat x \<Rightarrow> (case b of enat y \<Rightarrow> roundDouble (x + y) | \<infinity> \<Rightarrow> \<infinity>)
      | \<infinity> \<Rightarrow> \<infinity>)"

definition minusOne :: "int \<Rightarrow> int" where
  "minusOne p =
     (let e = p - 1
      in case roundDouble (nat \<bar>e\<bar>) of
           enat y \<Rightarrow> (if 0 \<le> e then int y else - int y)
         | \<infinity> \<Rightarrow> e)"

type_synonym memo = "int \<times> nat \<rightharpoonup> enat"

function M :: "int \<Rightarrow> nat \<Rightarrow> memo \<Rightarrow> enat \<times> memo" where
  "M p k memo =
     (case memo (p, k) of
        Some v \<Rightarrow> (v, memo)
      | None \<Rightarrow>
          (let (res, memo') =
                 (if k = 0 then (0, memo)
                  else if k = 1 then (1, memo)
                  else if p = 1 then (\<infinity>, memo)
                  else if p = 2 then (\<infinity>, memo)
                  else if p = 3 then (pow2minus1 k, memo)
                  else fold (\<lambda>x (res, memo).
                               let (a, memo1) = M p x memo;
                                   (b, memo2) = M (minusOne p) (k - x) memo1;
                                   candidate = plusDouble (times2 a) b
                               in (if candidate < res then candidate else res, memo2))
                            [1..<k] (\<infinity>, memo))
           in (res, memo'((p, k) \<mapsto> res))))"
  by pat_completeness auto
termination
  by (relation "measure (\<lambda>(p, k, memo). k)") auto

definition minimalMoves :: "int \<Rightarrow> nat \<Rightarrow> enat" where
  "minimalMoves pegs n = fst (M pegs n Map.empty)"

subsection \<open>\<^verbatim>\<open>applyMove\<close>\<close>

text \<open>
  The state updater passed to \<open>setRods\<close>. Reading \<open>.length\<close> of a peg that does not exist
  throws a \<open>TypeError\<close>; the destination is only read after the source was found
  non-empty. \<open>prev\<close> and its copy hold the same disks, so returning either is returning
  the same state. With \<open>from = to\<close> the two pegs are one array, and then the test
  \<open>disk < dst[dst.length - 1]\<close> compares the top disk with itself, so the branch that
  pops and pushes is only taken for two different pegs.
\<close>

datatype error = TypeError

definition applyMove :: "rods \<Rightarrow> Move \<Rightarrow> error + rods" where
  "applyMove prev m =
     (case m of (from, to) \<Rightarrow>
        if length prev \<le> from then Inl TypeError
        else
          (let src = prev ! from in
           if length src = 0 then Inr prev
           else if length prev \<le> to then Inl TypeError
           else
             (let dst = prev ! to;
                  disk = src ! (length src - 1)
              in if length dst = 0 \<or> disk < dst ! (length dst - 1)
                 then Inr (prev[from := butlast src, to := dst @ [disk]])
                 else Inr prev)))"

text \<open>
  The playback (\<^verbatim>\<open>stepSolve\<close> and the timer) calls \<open>applyMove(moves[moveIndex])\<close> for
  \<open>moveIndex = 0, 1, ...\<close>; an exception ends it.
\<close>

fun applyMoves :: "rods \<Rightarrow> Move list \<Rightarrow> error + rods" where
  "applyMoves rods [] = Inr rods"
| "applyMoves rods (m # ms) =
     (case applyMove rods m of Inl e \<Rightarrow> Inl e | Inr rods' \<Rightarrow> applyMoves rods' ms)"

text \<open>
  Modelled from the spec: the source has no function \<open>isLegalMove\<close>; its test is inlined
  in \<^verbatim>\<open>applyMove\<close>. The specification defines it as: true iff \<open>from \<noteq> to\<close>, peg \<open>from\<close>
  is non-empty, and peg \<open>to\<close> is empty or the top of \<open>to\<close> is larger than the top of
  \<open>from\<close>, for two pegs of the state.
\<close>

definition isLegalMove :: "rods \<Rightarrow> nat \<Rightarrow> nat \<Rightarrow> bool" where
  "isLegalMove state from to =
     (from < length state \<and> to < length state \<and> from \<noteq> to \<and> state ! from \<noteq> [] \<and>
      (state ! to = [] \<or> last (state ! from) < last (state ! to)))"

text \<open>Every move of a sequence is legal in the state the playback has reached.\<close>

fun allLegal :: "rods \<Rightarrow> Move list \<Rightarrow> bool" where
  "allLegal rods [] = True"
| "allLegal rods (m # ms) =
     (isLegalMove rods (fst m) (snd m) \<and>
      (case applyMove rods m of Inl e \<Rightarrow> False | Inr rods' \<Rightarrow> allLegal rods' ms))"

subsection \<open>\<^verbatim>\<open>activeStack\<close>\<close>

text \<open>
  \<open>findIndex\<close> of JavaScript: the first index whose element satisfies the callback, which
  also receives the index, or \<open>-1\<close>.
\<close>

fun findIndexFrom :: "('a \<Rightarrow> nat \<Rightarrow> bool) \<Rightarrow> nat \<Rightarrow> 'a list \<Rightarrow> int" where
  "findIndexFrom P i [] = - 1"
| "findIndexFrom P i (x # xs) = (if P x i then int i else findIndexFrom P (Suc i) xs)"

definition findIndex :: "('a \<Rightarrow> nat \<Rightarrow> bool) \<Rightarrow> 'a list \<Rightarrow> int" where
  "findIndex P xs = findIndexFrom P 0 xs"

text \<open>\<open>filter\<close> of JavaScript with a callback that receives the element and its index.\<close>

definition filterIdx :: "('a \<Rightarrow> nat \<Rightarrow> bool) \<Rightarrow> 'a list \<Rightarrow> 'a list" where
  "filterIdx P xs = map fst (filter (\<lambda>(x, i). P x i) (zip xs [0..<length xs]))"

text \<open>
  Every step of the trace is an object of its own, created by the object literal of its
  \<open>push\<close>, and \<open>slice\<close> keeps the objects. So \<open>recursionTrace.indexOf(step)\<close>, which
  compares by identity, is the position of the step, which is also its position in the
  slice; the model passes the position.
\<close>

definition activeStack :: "RecursionStep list \<Rightarrow> nat \<Rightarrow> RecursionStep list" where
  "activeStack recursionTrace currentTraceIndex =
     (let kept =
            filterIdx
              (\<lambda>step pos.
                 let exitIndex =
                       findIndex
                         (\<lambda>s i. pos < i \<and> step_depth s = step_depth step \<and>
                                step_n s = step_n step \<and> step_phase s = Exit)
                         recursionTrace
                 in exitIndex = - 1 \<or> int currentTraceIndex \<le> exitIndex)
              (take currentTraceIndex recursionTrace)
      in filterIdx
           (\<lambda>step idx.
              findIndex
                (\<lambda>s i. step_depth s = step_depth step \<and> step_n s = step_n step \<and>
                       step_from s = step_from step)
                kept
              = int idx)
           kept)"

subsection \<open>The trace index of the playback\<close>

text \<open>
  After each move it plays, the playback (\<^verbatim>\<open>stepSolve\<close> and the timer) searches the
  trace from \<open>currentTraceIndex\<close> for the next step of phase \<open>move\<close> (the \<open>while\<close> loop
  on \<open>nextTrace\<close>) and, if there is one, sets the index to the position after it. A
  solve request and a reset set the index to 0.
\<close>

function nextMoveStep :: "RecursionStep list \<Rightarrow> nat \<Rightarrow> nat" where
  "nextMoveStep recursionTrace nextTrace =
     (if nextTrace < length recursionTrace \<and> step_phase (recursionTrace ! nextTrace) \<noteq> Move
      then nextMoveStep recursionTrace (nextTrace + 1)
      else nextTrace)"
  by pat_completeness auto
termination
  by (relation "measure (\<lambda>(recursionTrace, nextTrace). length recursionTrace - nextTrace)") auto


subsection \<open>Reading the moves off a trace\<close>

text \<open>The \<open>from\<close> and \<open>to\<close> of the steps of phase \<open>move\<close>, in the order of the trace.\<close>

definition moveEvents :: "RecursionStep list \<Rightarrow> Move list" where
  "moveEvents trace =
     map (\<lambda>s. (step_from s, step_to s)) (filter (\<lambda>s. step_phase s = Move) trace)"

subsection \<open>The disks of a state\<close>

text \<open>The multiset of the disks on all pegs.\<close>

definition allDisks :: "rods \<Rightarrow> nat multiset" where
  "allDisks rods = mset (concat rods)"

section \<open>Properties\<close>

subsection \<open>The generator, case by case\<close>

text \<open>
  The recursive equations are taken out of the simplifier and replaced by one equation
  for each branch of the source.
\<close>

declare computeMoves.simps [simp del] computeMovesWithTrace.simps [simp del] M.simps [simp del]
declare ulp.simps [simp del] nextMoveStep.simps [simp del]

lemma computeMoves_le0: "n \<le> 0 \<Longrightarrow> computeMoves n from to aux out = out"
  by (simp add: computeMoves.simps [of n])

lemma computeMoves_1: "computeMoves 1 from to aux out = out @ [(from, to)]"
  by (simp add: computeMoves.simps [of 1])

lemma computeMoves_Nil: "1 < n \<Longrightarrow> computeMoves n from to [] out = out @ [(from, to)]"
  by (simp add: computeMoves.simps [of n])

lemma computeMoves_Cons:
  "1 < n \<Longrightarrow>
   computeMoves n from to (temp # restAux) out =
   computeMoves (n - 1) temp to (from # restAux)
     (computeMoves (n - 1) from temp (to # restAux) out @ [(from, to)])"
  by (simp add: computeMoves.simps [of n] Let_def)

lemma cmwt_le0: "n \<le> 0 \<Longrightarrow> computeMovesWithTrace n from to aux out trace depth = (out, trace)"
  by (simp add: computeMovesWithTrace.simps [of n])

lemma cmwt_1:
  "computeMovesWithTrace 1 from to aux out trace depth =
   (out @ [(from, to)],
    trace @ [mkStep depth 1 from to aux Enter, mkStep depth 1 from to aux Move,
             mkStep depth 1 from to aux Exit])"
  by (simp add: computeMovesWithTrace.simps [of 1])

lemma cmwt_Nil:
  "1 < n \<Longrightarrow>
   computeMovesWithTrace n from to [] out trace depth =
   (out @ [(from, to)],
    trace @ [mkStep depth n from to [] Enter, mkStep depth n from to [] Move,
             mkStep depth n from to [] Exit])"
  by (simp add: computeMovesWithTrace.simps [of n])

lemma cmwt_Cons:
  "1 < n \<Longrightarrow>
   computeMovesWithTrace n from to (temp # restAux) out trace depth =
   (let r1 = computeMovesWithTrace (n - 1) from temp (to # restAux) out
               (trace @ [mkStep depth n from to (temp # restAux) Enter]) (depth + 1);
        r2 = computeMovesWithTrace (n - 1) temp to (from # restAux) (fst r1 @ [(from, to)])
               (snd r1 @ [mkStep depth n from to (temp # restAux) Move]) (depth + 1)
    in (fst r2, snd r2 @ [mkStep depth n from to (temp # restAux) Exit]))"
  by (simp add: computeMovesWithTrace.simps [of n] Let_def split_beta)

subsection \<open>The two generators emit the same moves\<close>

lemma computeMovesWithTrace_moves_aux:
  "n \<le> int k \<Longrightarrow>
   fst (computeMovesWithTrace n from to aux out trace depth) = computeMoves n from to aux out"
proof (induction k arbitrary: n "from" to aux out trace depth)
  case 0
  then show ?case by (simp add: cmwt_le0 computeMoves_le0)
next
  case (Suc k)
  consider "n \<le> 0" | "n = 1" | "1 < n" "aux = []" | temp restAux where "1 < n" "aux = temp # restAux"
    by (cases aux) force+
  then show ?case
  proof cases
    case 1
    then show ?thesis by (simp add: cmwt_le0 computeMoves_le0)
  next
    case 2
    then show ?thesis by (simp add: cmwt_1 computeMoves_1)
  next
    case 3
    then show ?thesis by (simp add: cmwt_Nil computeMoves_Nil)
  next
    case 4
    have le: "n - 1 \<le> int k" using Suc.prems by simp
    show ?thesis using 4 by (simp add: cmwt_Cons computeMoves_Cons Let_def Suc.IH [OF le])
  qed
qed

lemma computeMovesWithTrace_moves:
  "fst (computeMovesWithTrace n from to aux out trace depth) = computeMoves n from to aux out"
  by (rule computeMovesWithTrace_moves_aux [of n "nat n"]) simp

subsection \<open>The generator only appends to its buffer\<close>

lemma computeMoves_append_aux:
  "n \<le> int k \<Longrightarrow> computeMoves n from to aux out = out @ computeMoves n from to aux []"
proof (induction k arbitrary: n "from" to aux out)
  case 0
  then show ?case by (simp add: computeMoves_le0)
next
  case (Suc k)
  consider "n \<le> 0" | "n = 1" | "1 < n" "aux = []" | temp restAux where "1 < n" "aux = temp # restAux"
    by (cases aux) force+
  then show ?case
  proof cases
    case 1
    then show ?thesis by (simp add: computeMoves_le0)
  next
    case 2
    then show ?thesis by (simp add: computeMoves_1)
  next
    case 3
    then show ?thesis by (simp add: computeMoves_Nil)
  next
    case 4
    have le: "n - 1 \<le> int k" using Suc.prems by simp
    note IH = Suc.IH [OF le]
    define A where "A = computeMoves (n - 1) from temp (to # restAux) []"
    define B where "B = computeMoves (n - 1) temp to (from # restAux) []"
    have step: "computeMoves n from to aux xs = (xs @ A @ [(from, to)]) @ B" for xs
    proof -
      have "computeMoves n from to aux xs =
            computeMoves (n - 1) temp to (from # restAux)
              (computeMoves (n - 1) from temp (to # restAux) xs @ [(from, to)])"
        using 4 by (simp add: computeMoves_Cons)
      also have "\<dots> = (computeMoves (n - 1) from temp (to # restAux) xs @ [(from, to)]) @ B"
        unfolding B_def by (rule IH)
      also have "computeMoves (n - 1) from temp (to # restAux) xs = xs @ A"
        unfolding A_def by (rule IH)
      finally show ?thesis by simp
    qed
    show ?thesis by (simp add: step [of out] step [of "[]"])
  qed
qed

lemma computeMoves_append:
  "computeMoves n from to aux out = out @ computeMoves n from to aux []"
  by (rule computeMoves_append_aux [of n "nat n"]) simp

text \<open>
  C10: for every \<open>n\<close>, \<open>from\<close>, \<open>to\<close> and auxiliary list, and whatever the buffers
  hold at the call, \<^verbatim>\<open>computeMovesWithTrace\<close> leaves in its move buffer exactly what
  \<^verbatim>\<open>computeMoves\<close> leaves in it: the two generators are move-for-move equal.
\<close>

theorem computeMoves_refines_computeMovesWithTrace:
  "fst (computeMovesWithTrace n from to aux out trace depth) = computeMoves n from to aux out"
  by (rule computeMovesWithTrace_moves)

subsection \<open>The number of moves\<close>



subsection \<open>The move counter\<close>

lemma ulp_small: "x < 2 ^ 53 \<Longrightarrow> ulp x = 1"
  by (simp add: ulp.simps [of x])

lemma ulp_large: "2 ^ 53 \<le> x \<Longrightarrow> ulp x = 2 * ulp (x div 2)"
  by (simp add: ulp.simps [of x])

text \<open>Below \<open>2^53\<close> nothing is rounded.\<close>

lemma roundDouble_small: "x < 2 ^ 53 \<Longrightarrow> roundDouble x = enat x"
proof -
  assume x: "x < 2 ^ 53"
  have "(2::nat) ^ 53 \<le> 2 ^ 1024" by (rule power_increasing) simp_all
  with x have "x < 2 ^ 1024" by linarith
  with x show ?thesis by (simp add: roundDouble_def ulp_small Let_def)
qed

lemma minusOne_small: "\<bar>p - 1\<bar> < 2 ^ 53 \<Longrightarrow> minusOne p = p - 1"
proof -
  assume "\<bar>p - 1\<bar> < 2 ^ 53"
  then have "nat \<bar>p - 1\<bar> < 2 ^ 53" by (simp add: nat_less_iff)
  then show ?thesis by (simp add: minusOne_def Let_def roundDouble_small)
qed

lemma pow2minus1_small: "k \<le> 53 \<Longrightarrow> pow2minus1 k = enat (2 ^ k - 1)"
proof -
  assume k: "k \<le> 53"
  have "(2::nat) ^ k \<le> 2 ^ 53" using k by (intro power_increasing) simp_all
  then have "(2::nat) ^ k - 1 < 2 ^ 53" by (simp add: less_eq_Suc_le [symmetric] algebra_simps)
  with k show ?thesis by (simp add: pow2minus1_def roundDouble_small)
qed

text \<open>
  \<open>2^54 - 1\<close> lies halfway between the doubles \<open>2^54 - 2\<close> and \<open>2^54\<close> and is rounded to
  \<open>2^54\<close>; from \<open>k = 1024\<close> on the power is \<open>Infinity\<close>.
\<close>

lemma pow2minus1_54: "pow2minus1 54 = enat (2 ^ 54)"
  by (simp add: pow2minus1_def roundDouble_def Let_def ulp_large ulp_small)

lemma pow2minus1_overflow: "1024 \<le> k \<Longrightarrow> pow2minus1 k = \<infinity>"
  by (simp add: pow2minus1_def)

text \<open>
  \<^verbatim>\<open>minimalMoves\<close> starts from an empty table, so the outermost call of \<open>M\<close> always
  computes its result.
\<close>

lemma minimalMoves_3_exact: "k \<le> 53 \<Longrightarrow> minimalMoves 3 k = enat (2 ^ k - 1)"
  by (simp add: minimalMoves_def M.simps [of 3 k] pow2minus1_small zero_enat_def one_enat_def)

lemma minimalMoves_3_54: "minimalMoves 3 54 = enat (2 ^ 54)"
  by (simp add: minimalMoves_def M.simps [of 3 54] pow2minus1_54)

lemma minimalMoves_3_overflow: "1024 \<le> k \<Longrightarrow> minimalMoves 3 k = \<infinity>"
  by (simp add: minimalMoves_def M.simps [of 3 k] pow2minus1_overflow)

lemma minimalMoves_0: "minimalMoves p 0 = 0"
  by (simp add: minimalMoves_def M.simps [of p 0])

lemma minimalMoves_unsolvable: "2 \<le> k \<Longrightarrow> minimalMoves 1 k = \<infinity> \<and> minimalMoves 2 k = \<infinity>"
  by (simp add: minimalMoves_def M.simps [of _ k])

text \<open>
  C2 as stated, "\<open>minimalMoves(3, k) = 2^k - 1\<close> for every \<open>k \<ge> 0\<close>", fails at \<open>k = 54\<close>: the
  subtraction \<open>Math.pow(2, 54) - 1\<close> is rounded to \<open>2^54\<close>.
\<close>

theorem minimalMoves_3_rounds_counterexample:
  "minimalMoves 3 54 = enat (2 ^ 54) \<and> minimalMoves 3 54 \<noteq> enat (2 ^ 54 - 1)"
  by (simp add: minimalMoves_3_54)

text \<open>
  C2, amended: \<open>minimalMoves(3, k) = 2^k - 1\<close> for every \<open>k\<close> from 0 to 53;
  \<open>minimalMoves(p, 0) = 0\<close> for every peg count \<open>p\<close>; and for every \<open>k \<ge> 2\<close> both
  \<open>minimalMoves(1, k)\<close> and \<open>minimalMoves(2, k)\<close> are the value \<open>Infinity\<close> that stands for an
  unsolvable puzzle.
\<close>

theorem minimalMoves_closed_forms:
  "(k \<le> 53 \<longrightarrow> minimalMoves 3 k = enat (2 ^ k - 1)) \<and> minimalMoves p 0 = 0 \<and>
   (2 \<le> j \<longrightarrow> minimalMoves 1 j = \<infinity> \<and> minimalMoves 2 j = \<infinity>)"
  by (simp add: minimalMoves_3_exact minimalMoves_0 minimalMoves_unsolvable)

theorem minimalMoves_closed_forms_witness:
  "(53::nat) \<le> 53 \<and> minimalMoves 3 53 = enat (2 ^ 53 - 1) \<and> minimalMoves 5 0 = 0 \<and>
   (2::nat) \<le> 2 \<and> minimalMoves 1 2 = \<infinity> \<and> minimalMoves 2 2 = \<infinity>"
proof -
  have h: "(53::nat) \<le> 53" "(2::nat) \<le> 2" by simp_all
  from minimalMoves_closed_forms [of 53 5 2] h show ?thesis by blast
qed




subsection \<open>The move events of the trace\<close>

lemma moveEvents_append: "moveEvents (xs @ ys) = moveEvents xs @ moveEvents ys"
  by (simp add: moveEvents_def)

lemma moveEvents_Nil: "moveEvents [] = []"
  by (simp add: moveEvents_def)

lemma moveEvents_Cons:
  "moveEvents (mkStep depth n from to aux ph # xs) =
   (if ph = Move then (from, to) # moveEvents xs else moveEvents xs)"
  by (simp add: moveEvents_def mkStep_def)

lemma moveEvents_trace_aux:
  "n \<le> int k \<Longrightarrow>
   moveEvents (snd (computeMovesWithTrace n from to aux out trace depth)) =
   moveEvents trace @ computeMoves n from to aux []"
proof (induction k arbitrary: n "from" to aux out trace depth)
  case 0
  then show ?case by (simp add: cmwt_le0 computeMoves_le0)
next
  case (Suc k)
  consider "n \<le> 0" | "n = 1" | "1 < n" "aux = []" | temp restAux where "1 < n" "aux = temp # restAux"
    by (cases aux) force+
  then show ?case
  proof cases
    case 1
    then show ?thesis by (simp add: cmwt_le0 computeMoves_le0)
  next
    case 2
    then show ?thesis
      by (simp add: cmwt_1 computeMoves_1 moveEvents_append moveEvents_Cons moveEvents_Nil)
  next
    case 3
    then show ?thesis
      by (simp add: cmwt_Nil computeMoves_Nil moveEvents_append moveEvents_Cons moveEvents_Nil)
  next
    case 4
    have le: "n - 1 \<le> int k" using Suc.prems by simp
    show ?thesis
      using 4
      by (simp add: cmwt_Cons computeMoves_Cons Let_def Suc.IH [OF le] moveEvents_append
            moveEvents_Cons moveEvents_Nil
            computeMoves_append [of _ _ _ _ "computeMoves (n - 1) from temp (to # restAux) [] @ [(from, to)]"])
  qed
qed

lemma moveEvents_trace:
  "moveEvents (snd (computeMovesWithTrace n from to aux out trace depth)) =
   moveEvents trace @ computeMoves n from to aux []"
  by (rule moveEvents_trace_aux [of n "nat n"]) simp

text \<open>
  C7: for every \<open>n\<close>, \<open>from\<close>, \<open>to\<close>, auxiliary list and starting depth, the trace of a
  solve request has as many steps of phase \<open>move\<close> as the move sequence has moves, and
  the \<open>from\<close> and \<open>to\<close> of the i-th such step are the source and destination of the
  i-th move.
\<close>

theorem move_events_match_moves:
  "length (filter (\<lambda>s. step_phase s = Move)
             (snd (computeMovesWithTrace n from to aux [] [] depth))) =
   length (fst (computeMovesWithTrace n from to aux [] [] depth)) \<and>
   moveEvents (snd (computeMovesWithTrace n from to aux [] [] depth)) =
   fst (computeMovesWithTrace n from to aux [] [] depth)"
proof -
  have eq: "moveEvents (snd (computeMovesWithTrace n from to aux [] [] depth)) =
            fst (computeMovesWithTrace n from to aux [] [] depth)"
    by (simp add: moveEvents_trace computeMovesWithTrace_moves moveEvents_Nil)
  have "length (filter (\<lambda>s. step_phase s = Move)
                  (snd (computeMovesWithTrace n from to aux [] [] depth))) =
        length (moveEvents (snd (computeMovesWithTrace n from to aux [] [] depth)))"
    by (simp add: moveEvents_def)
  with eq show ?thesis by simp
qed

subsection \<open>The initial state\<close>

lemma map_upt_rev: "map (\<lambda>i. disks - i) [0..<disks] = rev [1..<Suc disks]"
  by (rule nth_equalityI) (simp_all add: rev_nth del: upt_Suc)

lemma generateInitialRods_eq:
  "0 < pegs \<Longrightarrow> generateInitialRods pegs disks = rev [1..<Suc disks] # replicate (pegs - 1) []"
  by (cases pegs) (simp_all add: generateInitialRods_def map_upt_rev)

text \<open>
  C9: for every configuration with \<open>2 \<le> pegCount \<le> 8\<close> and \<open>1 \<le> diskCount \<le> 8\<close> the
  initial state has \<open>pegCount\<close> pegs, peg 0 holds exactly the disks \<open>1, ..., diskCount\<close>,
  each once, every other peg is empty, the bottom disk of peg 0 is \<open>diskCount\<close>, its top
  disk is 1, and the sizes strictly decrease from bottom to top.
\<close>

theorem generateInitialRods_layout:
  "2 \<le> pegs \<Longrightarrow> pegs \<le> 8 \<Longrightarrow> 1 \<le> disks \<Longrightarrow> disks \<le> 8 \<Longrightarrow>
   length (generateInitialRods pegs disks) = pegs \<and>
   set (generateInitialRods pegs disks ! 0) = {1..disks} \<and>
   length (generateInitialRods pegs disks ! 0) = disks \<and>
   (\<forall>i. 0 < i \<and> i < pegs \<longrightarrow> generateInitialRods pegs disks ! i = []) \<and>
   hd (generateInitialRods pegs disks ! 0) = disks \<and>
   last (generateInitialRods pegs disks ! 0) = 1 \<and>
   sorted_wrt (\<lambda>lower upper. upper < lower) (generateInitialRods pegs disks ! 0)"
proof -
  assume pegs: "2 \<le> pegs" and disks: "1 \<le> disks"
  have eq: "generateInitialRods pegs disks = rev [1..<Suc disks] # replicate (pegs - 1) []"
    using pegs by (simp add: generateInitialRods_eq)
  have peg0: "generateInitialRods pegs disks ! 0 = rev [1..<Suc disks]"
    by (simp add: eq del: upt_Suc)
  have others: "generateInitialRods pegs disks ! i = []" if "0 < i" "i < pegs" for i
    using that by (simp add: eq nth_Cons' del: upt_Suc)
  have len: "length (generateInitialRods pegs disks) = pegs"
    using pegs by (simp add: eq del: upt_Suc)
  have bottom: "hd (rev [1..<Suc disks]) = disks"
    using disks by simp
  have top: "last (rev [1..<Suc disks]) = 1"
    using disks by (simp add: last_rev upt_conv_Cons del: upt_Suc)
  have set0: "set (rev [1..<Suc disks]) = {1..disks}"
    by (auto simp del: upt_Suc)
  have decr: "sorted_wrt (\<lambda>lower upper. upper < lower) (rev [1..<Suc disks])"
    by (simp add: sorted_wrt_rev del: upt_Suc)
  show ?thesis
    unfolding peg0 using len others bottom top set0 decr by (simp del: upt_Suc)
qed

theorem generateInitialRods_layout_witness:
  "(2::nat) \<le> 3 \<and> (3::nat) \<le> 8 \<and> (1::nat) \<le> 4 \<and> (4::nat) \<le> 8 \<and>
   length (generateInitialRods 3 4) = 3 \<and>
   set (generateInitialRods 3 4 ! 0) = {1..4} \<and>
   length (generateInitialRods 3 4 ! 0) = 4 \<and>
   generateInitialRods 3 4 ! 1 = [] \<and> generateInitialRods 3 4 ! 2 = [] \<and>
   hd (generateInitialRods 3 4 ! 0) = 4 \<and>
   last (generateInitialRods 3 4 ! 0) = 1 \<and>
   sorted_wrt (\<lambda>lower upper. upper < lower) (generateInitialRods 3 4 ! 0)"
proof -
  have h: "(2::nat) \<le> 3" "(3::nat) \<le> 8" "(1::nat) \<le> 4" "(4::nat) \<le> 8" by simp_all
  have i: "(0::nat) < 1 \<and> (1::nat) < 3" "(0::nat) < 2 \<and> (2::nat) < 3" by simp_all
  from generateInitialRods_layout [OF h] h i show ?thesis by blast
qed

subsection \<open>Illegal moves\<close>

text \<open>For two pegs of the state, \<^verbatim>\<open>applyMove\<close> moves the top disk exactly when the move is legal.\<close>

lemma applyMove_in_range:
  "from < length state \<Longrightarrow> to < length state \<Longrightarrow>
   applyMove state (from, to) =
   Inr (if isLegalMove state from to
        then state[from := butlast (state ! from), to := state ! to @ [last (state ! from)]]
        else state)"
  by (auto simp: applyMove_def isLegalMove_def Let_def last_conv_nth)

text \<open>
  C3 as stated, "an illegal move makes \<^verbatim>\<open>applyMove\<close> signal an error", fails: placing disk
  2 on disk 1 is illegal, and \<^verbatim>\<open>applyMove\<close> returns normally with the state it was given.
\<close>

theorem applyMove_illegal_counterexample:
  "\<not> isLegalMove [[3, 2], [1], []] 0 1 \<and>
   applyMove [[3, 2], [1], []] (0, 1) = Inr [[3, 2], [1], []]"
  by (simp add: isLegalMove_def applyMove_def)

text \<open>
  C3, amended: for every state and every two pegs of it for which \<open>isLegalMove\<close> is false
  (the pegs are equal, peg \<open>from\<close> is empty, or the top of \<open>from\<close> is not smaller than the
  top of a non-empty \<open>to\<close>), \<^verbatim>\<open>applyMove\<close> returns normally and the state is unchanged:
  the move is ignored and no error is signalled.
\<close>

theorem applyMove_ignores_illegal:
  "from < length state \<Longrightarrow> to < length state \<Longrightarrow> \<not> isLegalMove state from to \<Longrightarrow>
   applyMove state (from, to) = Inr state"
  by (simp add: applyMove_in_range)

theorem applyMove_ignores_illegal_witness:
  "(0::nat) < length [[3, 2], [1::nat], []] \<and> (1::nat) < length [[3, 2], [1::nat], []] \<and>
   \<not> isLegalMove [[3, 2], [1], []] 0 1 \<and>
   applyMove [[3, 2], [1], []] (0, 1) = Inr [[3, 2], [1], []]"
proof -
  have h: "(0::nat) < length [[3, 2], [1::nat], []]" "(1::nat) < length [[3, 2], [1::nat], []]"
    "\<not> isLegalMove [[3, 2], [1], []] 0 1"
    by (simp_all add: isLegalMove_def)
  from applyMove_ignores_illegal [OF h] h show ?thesis by blast
qed

subsection \<open>The fallback without an auxiliary peg\<close>

text \<open>
  C6 as stated, "the move of the fallback is flagged to the caller", fails: for two pegs and
  two disks the solve request returns one move and the three steps of one call, the same
  moves and the same phases as for two pegs and one disk, and the playback applies the
  move like any other.
\<close>

theorem fallback_not_flagged_counterexample:
  "startSolve 2 2 =
     ([(0, 1)], [mkStep 0 2 0 1 [] Enter, mkStep 0 2 0 1 [] Move, mkStep 0 2 0 1 [] Exit]) \<and>
   fst (startSolve 2 2) = fst (startSolve 2 1) \<and>
   map step_phase (snd (startSolve 2 2)) = map step_phase (snd (startSolve 2 1)) \<and>
   applyMoves (generateInitialRods 2 2) (fst (startSolve 2 2)) = Inr [[2], [1]]"
  by code_simp

text \<open>
  C6, amended: called with \<open>n > 1\<close> and an empty auxiliary list, the generator appends
  the single move \<open>(from, to)\<close> and the steps \<open>enter\<close>, \<open>move\<close>, \<open>exit\<close> of the call at
  the current depth, and nothing else; the moves and the phases are those of a call with
  \<open>n = 1\<close>, so nothing marks the move as a fallback.
\<close>

theorem fallback_emits_plain_move:
  "1 < n \<Longrightarrow>
   computeMovesWithTrace n from to [] out trace depth =
     (out @ [(from, to)],
      trace @ [mkStep depth n from to [] Enter, mkStep depth n from to [] Move,
               mkStep depth n from to [] Exit]) \<and>
   fst (computeMovesWithTrace n from to [] out trace depth) =
     fst (computeMovesWithTrace 1 from to [] out trace depth) \<and>
   map step_phase (snd (computeMovesWithTrace n from to [] out trace depth)) =
     map step_phase (snd (computeMovesWithTrace 1 from to [] out trace depth))"
  by (simp add: cmwt_Nil cmwt_1 mkStep_def)

theorem fallback_emits_plain_move_witness:
  "(1::int) < 2 \<and>
   computeMovesWithTrace 2 0 1 [] [] [] 0 =
     ([(0, 1)], [mkStep 0 2 0 1 [] Enter, mkStep 0 2 0 1 [] Move, mkStep 0 2 0 1 [] Exit]) \<and>
   fst (computeMovesWithTrace 2 0 1 [] [] [] 0) = fst (computeMovesWithTrace 1 0 1 [] [] [] 0) \<and>
   map step_phase (snd (computeMovesWithTrace 2 0 1 [] [] [] 0)) =
     map step_phase (snd (computeMovesWithTrace 1 0 1 [] [] [] 0))"
proof -
  have h: "(1::int) < 2" by simp
  show ?thesis
    using fallback_emits_plain_move [OF h, of 0 1 "[]" "[]" 0] h unfolding append_Nil by blast
qed

subsection \<open>The displayed call stack\<close>


text \<open>
  With the whole of a non-empty trace played, the last step has no step after it, so the
  search for its \<open>exit\<close> gives \<open>-1\<close> and the first filter keeps it; the second filter
  always keeps the first step it is given. So the stack is not empty after any solve
  request with at least one disk.
\<close>

lemma findIndexFrom_none:
  "(\<And>j. j < length xs \<Longrightarrow> \<not> P (xs ! j) (i + j)) \<Longrightarrow> findIndexFrom P i xs = - 1"
proof (induction xs arbitrary: i)
  case Nil
  then show ?case by simp
next
  case (Cons x xs)
  have "\<not> P x i" using Cons.prems [of 0] by simp
  moreover have "findIndexFrom P (Suc i) xs = - 1"
  proof (rule Cons.IH)
    fix j
    assume "j < length xs"
    then show "\<not> P (xs ! j) (Suc i + j)" using Cons.prems [of "Suc j"] by simp
  qed
  ultimately show ?case by simp
qed

lemma findIndexFrom_hd: "xs \<noteq> [] \<Longrightarrow> P (hd xs) i \<Longrightarrow> findIndexFrom P i xs = int i"
  by (cases xs) simp_all

lemma filterIdx_nonempty:
  assumes "j < length xs" and "P (xs ! j) j"
  shows "filterIdx P xs \<noteq> []"
proof -
  have "(xs ! j, j) \<in> set (zip xs [0..<length xs])"
    using assms(1) by (auto simp: in_set_zip)
  with assms(2) have "filter (\<lambda>(x, i). P x i) (zip xs [0..<length xs]) \<noteq> []"
    by (auto simp: filter_empty_conv)
  then show ?thesis by (simp add: filterIdx_def)
qed

lemma activeStack_full_nonempty:
  assumes "recursionTrace \<noteq> []"
  shows "activeStack recursionTrace (length recursionTrace) \<noteq> []"
proof -
  let ?k = "length recursionTrace"
  let ?last = "?k - 1"
  let ?P1 = "\<lambda>step pos.
      let exitIndex =
            findIndex
              (\<lambda>s i. pos < i \<and> step_depth s = step_depth step \<and>
                     step_n s = step_n step \<and> step_phase s = Exit)
              recursionTrace
      in exitIndex = - 1 \<or> int ?k \<le> exitIndex"
  define kept where "kept = filterIdx ?P1 (take ?k recursionTrace)"
  have none: "findIndex
                (\<lambda>s i. ?last < i \<and> step_depth s = step_depth (recursionTrace ! ?last) \<and>
                       step_n s = step_n (recursionTrace ! ?last) \<and> step_phase s = Exit)
                recursionTrace = - 1"
    unfolding findIndex_def by (rule findIndexFrom_none) auto
  have "?last < length recursionTrace" using assms by simp
  moreover have "?P1 (recursionTrace ! ?last) ?last"
    using none by (simp add: Let_def)
  ultimately have "filterIdx ?P1 recursionTrace \<noteq> []"
    by (rule filterIdx_nonempty)
  then have kept: "kept \<noteq> []" by (simp add: kept_def)
  let ?P2 = "\<lambda>step idx.
      findIndex
        (\<lambda>s i. step_depth s = step_depth step \<and> step_n s = step_n step \<and>
               step_from s = step_from step)
        kept
      = int idx"
  have "?P2 (kept ! 0) 0"
    using kept by (simp add: findIndex_def findIndexFrom_hd hd_conv_nth)
  with kept have "filterIdx ?P2 kept \<noteq> []"
    by (intro filterIdx_nonempty [of 0]) simp_all
  then show ?thesis
    by (simp add: activeStack_def Let_def kept_def)
qed

lemma computeMovesWithTrace_trace_nonempty:
  "1 \<le> n \<Longrightarrow> snd (computeMovesWithTrace n from to aux out trace depth) \<noteq> []"
proof -
  assume n: "1 \<le> n"
  consider "n = 1" | "1 < n" "aux = []" | temp restAux where "1 < n" "aux = temp # restAux"
    using n by (cases aux) force+
  then show ?thesis
  proof cases
    case 1
    then show ?thesis by (simp add: cmwt_1)
  next
    case 2
    then show ?thesis by (simp add: cmwt_Nil)
  next
    case 3
    then show ?thesis by (simp add: cmwt_Cons Let_def)
  qed
qed

lemma activeStack_after_solve:
  "1 \<le> disks \<Longrightarrow>
   activeStack (snd (startSolve pegs disks)) (length (snd (startSolve pegs disks))) \<noteq> []"
  by (rule activeStack_full_nonempty)
     (simp add: startSolve_def computeMovesWithTrace_trace_nonempty)









subsection \<open>The disks are preserved\<close>

lemma mset_concat_update:
  "i < length xs \<Longrightarrow> mset (concat (xs[i := y])) + mset (xs ! i) = mset (concat xs) + mset y"
proof (induction xs arbitrary: i)
  case Nil
  then show ?case by simp
next
  case (Cons x xs)
  then show ?case by (cases i) (simp_all add: ac_simps)
qed

lemma applyMove_Inr_cases:
  assumes "applyMove prev (from, to) = Inr rods'"
  shows "rods' = prev \<or>
         (isLegalMove prev from to \<and>
          rods' = prev[from := butlast (prev ! from), to := prev ! to @ [last (prev ! from)]])"
proof (cases "from < length prev \<and> to < length prev")
  case True
  with assms show ?thesis by (simp add: applyMove_in_range split: if_splits)
next
  case False
  with assms show ?thesis by (auto simp: applyMove_def Let_def split: if_splits)
qed

lemma mset_concat_move:
  assumes "isLegalMove prev from to"
  shows "mset (concat (prev[from := butlast (prev ! from), to := prev ! to @ [last (prev ! from)]])) =
         mset (concat prev)"
proof -
  from assms have f: "from < length prev" and t: "to < length prev" and ne: "from \<noteq> to"
    and src: "prev ! from \<noteq> []"
    by (simp_all add: isLegalMove_def)
  let ?mid = "prev[from := butlast (prev ! from)]"
  have 1: "mset (concat ?mid) + mset (prev ! from) = mset (concat prev) + mset (butlast (prev ! from))"
    using f by (rule mset_concat_update)
  have 2: "mset (concat (?mid[to := prev ! to @ [last (prev ! from)]])) + mset (?mid ! to) =
           mset (concat ?mid) + mset (prev ! to @ [last (prev ! from)])"
    using t by (intro mset_concat_update) simp
  have 3: "?mid ! to = prev ! to" using ne by simp
  have 4: "mset (prev ! from) = mset (butlast (prev ! from)) + {#last (prev ! from)#}"
    using src by (metis append_butlast_last_id mset.simps(1) mset.simps(2) mset_append add.commute union_mset_add_mset_right add.right_neutral)
  from 1 2 3 4 show ?thesis
    by (simp add: ac_simps)
qed


lemma applyMove_mset:
  "applyMove prev m = Inr rods' \<Longrightarrow> mset (concat rods') = mset (concat prev)"
  using applyMove_Inr_cases [of prev "fst m" "snd m" rods'] by (auto simp: mset_concat_move)

lemma applyMove_length:
  "applyMove prev m = Inr rods' \<Longrightarrow> length rods' = length prev"
  using applyMove_Inr_cases [of prev "fst m" "snd m" rods'] by auto

lemma applyMoves_mset:
  "applyMoves rods ms = Inr rods' \<Longrightarrow>
   mset (concat rods') = mset (concat rods) \<and> length rods' = length rods"
proof (induction ms arbitrary: rods)
  case Nil
  then show ?case by simp
next
  case (Cons m ms)
  then obtain mid where mid: "applyMove rods m = Inr mid" and rest: "applyMoves mid ms = Inr rods'"
    by (auto split: sum.splits)
  from Cons.IH [OF rest] applyMove_mset [OF mid] applyMove_length [OF mid]
  show ?case by simp
qed

lemma sum_list_eq_1_filter:
  fixes f :: "'a \<Rightarrow> nat"
  shows "sum_list (map f xs) = 1 \<Longrightarrow> length (filter (\<lambda>x. 0 < f x) xs) = 1"
proof (induction xs)
  case Nil
  then show ?case by simp
next
  case (Cons x xs)
  show ?case
  proof (cases "f x = 0")
    case True
    with Cons show ?thesis by simp
  next
    case False
    have "f x + sum_list (map f xs) = 1" using Cons.prems by simp
    with False have "f x = 1" and "sum_list (map f xs) = 0" by linarith+
    then have "filter (\<lambda>x. 0 < f x) xs = []" by (simp add: filter_empty_conv)
    with \<open>f x = 1\<close> show ?thesis by simp
  qed
qed

lemma count_mset_upt:
  "count (mset [1..<Suc diskCount]) s = (if 1 \<le> s \<and> s \<le> diskCount then 1 else 0)"
  using distinct_count_atmost_1 [of "[1..<Suc diskCount]"] by (auto simp del: upt_Suc)

lemma count_mset_concat: "count (mset (concat xss)) a = sum_list (map (\<lambda>xs. count (mset xs) a) xss)"
  by (induction xss) simp_all

lemma one_peg_per_disk:
  assumes "mset (concat rods) = mset [1..<Suc diskCount]" and "1 \<le> s" and "s \<le> diskCount"
  shows "length (filter (\<lambda>peg. s \<in> set peg) rods) = 1"
proof -
  have "count (mset (concat rods)) s = 1"
    using assms by (simp add: count_mset_upt del: upt_Suc)
  then have "sum_list (map (\<lambda>xs. count (mset xs) s) rods) = 1"
    by (simp add: count_mset_concat)
  then have "length (filter (\<lambda>xs. 0 < count (mset xs) s) rods) = 1"
    by (rule sum_list_eq_1_filter)
  then show ?thesis by (simp add: count_greater_zero_iff)
qed

text \<open>
  C4: if the disks on all pegs of a state are \<open>1, ..., diskCount\<close>, each once, and a
  sequence of \<^verbatim>\<open>applyMove\<close> calls returns normally, then the disks on all pegs of the
  resulting state are again \<open>1, ..., diskCount\<close>: each size occurs exactly once, on exactly
  one peg.
\<close>

theorem applyMoves_preserve_disks:
  "allDisks rods = mset [1..<Suc diskCount] \<Longrightarrow> applyMoves rods ms = Inr rods' \<Longrightarrow>
   allDisks rods' = mset [1..<Suc diskCount] \<and>
   (\<forall>s. 1 \<le> s \<and> s \<le> diskCount \<longrightarrow>
      count (allDisks rods') s = 1 \<and> length (filter (\<lambda>peg. s \<in> set peg) rods') = 1)"
proof -
  assume init: "allDisks rods = mset [1..<Suc diskCount]" and run: "applyMoves rods ms = Inr rods'"
  from applyMoves_mset [OF run] init
  have all: "mset (concat rods') = mset [1..<Suc diskCount]"
    by (simp add: allDisks_def)
  have "count (allDisks rods') s = 1 \<and> length (filter (\<lambda>peg. s \<in> set peg) rods') = 1"
    if "1 \<le> s" "s \<le> diskCount" for s
    using that all one_peg_per_disk [OF all that]
    by (simp add: allDisks_def count_mset_upt del: upt_Suc)
  with all show ?thesis by (simp add: allDisks_def)
qed

theorem applyMoves_preserve_disks_witness:
  "allDisks [[3, 2], [1], []] = mset [1..<Suc 3] \<and>
   applyMoves [[3, 2], [1], []] [(0, 2), (1, 2)] = Inr [[3], [], [2, 1]] \<and>
   allDisks [[3], [], [2, 1]] = mset [1..<Suc 3] \<and>
   count (allDisks [[3], [], [2, 1]]) 2 = 1 \<and>
   length (filter (\<lambda>peg. 2 \<in> set peg) [[3::nat], [], [2, 1]]) = 1"
proof -
  have init: "allDisks [[3, 2], [1], []] = mset [1..<Suc 3]"
    by (simp add: allDisks_def upt_conv_Cons eval_nat_numeral add_mset_commute)
  have run: "applyMoves [[3, 2], [1], []] [(0, 2), (1, 2)] = Inr [[3], [], [2, 1]]"
    by (simp add: applyMove_def)
  have two: "(1::nat) \<le> 2 \<and> (2::nat) \<le> 3" by simp
  note t = applyMoves_preserve_disks [OF init run]
  from t have a: "allDisks [[3], [], [2, 1]] = mset [1..<Suc 3]" by (rule conjunct1)
  from t have "\<forall>s. 1 \<le> s \<and> s \<le> 3 \<longrightarrow>
      count (allDisks [[3], [], [2, 1]]) s = 1 \<and>
      length (filter (\<lambda>peg. s \<in> set peg) [[3::nat], [], [2, 1]]) = 1" by (rule conjunct2)
  then have b: "count (allDisks [[3], [], [2, 1]]) 2 = 1 \<and>
      length (filter (\<lambda>peg. 2 \<in> set peg) [[3::nat], [], [2, 1]]) = 1"
    using two by blast
  from init run a b show ?thesis by blast
qed

subsection \<open>Playing the generated moves on three pegs\<close>

lemma applyMoves_append:
  "applyMoves rods (xs @ ys) =
   (case applyMoves rods xs of Inl e \<Rightarrow> Inl e | Inr mid \<Rightarrow> applyMoves mid ys)"
  by (induction xs arbitrary: rods) (auto split: sum.splits)

lemma allLegal_append:
  "applyMoves rods xs = Inr mid \<Longrightarrow>
   allLegal rods (xs @ ys) = (allLegal rods xs \<and> allLegal mid ys)"
  by (induction xs arbitrary: rods) (auto split: sum.splits)

lemma computeMoves_Suc:
  "computeMoves (int (Suc n)) from to [a] [] =
   computeMoves (int n) from a [to] [] @ [(from, to)] @ computeMoves (int n) a to [from] []"
proof (cases n)
  case 0
  then show ?thesis by (simp add: computeMoves_1 computeMoves_le0)
next
  case (Suc m)
  then have "1 < int (Suc n)" by simp
  then have "computeMoves (int (Suc n)) from to [a] [] =
             computeMoves (int (Suc n) - 1) a to [from]
               (computeMoves (int (Suc n) - 1) from a [to] [] @ [(from, to)])"
    by (rule computeMoves_Cons)
  also have "int (Suc n) - 1 = int n" by simp
  finally show ?thesis
    by (simp add: computeMoves_append [of _ _ _ _ "computeMoves (int n) from a [to] [] @ [(from, to)]"])
qed

lemma rev_upt_Suc: "rev [Suc 0..<Suc (Suc n)] = Suc n # rev [Suc 0..<Suc n]"
  by simp

text \<open>
  The invariant of the recursion: the \<open>n\<close> smallest disks lie on top of peg \<open>from\<close>, and
  every other disk on the three pegs is larger. Then the moves for \<open>n\<close> disks are all
  legal and carry these \<open>n\<close> disks, in order, to the top of peg \<open>to\<close>.
\<close>

lemma hanoi_three_pegs:
  "from < length rods \<Longrightarrow> to < length rods \<Longrightarrow> a < length rods \<Longrightarrow>
   from \<noteq> to \<Longrightarrow> from \<noteq> a \<Longrightarrow> to \<noteq> a \<Longrightarrow>
   rods ! from = base @ rev [1..<Suc n] \<Longrightarrow>
   (\<And>x. x \<in> set base \<Longrightarrow> n < x) \<Longrightarrow>
   (\<And>x. x \<in> set (rods ! to) \<Longrightarrow> n < x) \<Longrightarrow>
   (\<And>x. x \<in> set (rods ! a) \<Longrightarrow> n < x) \<Longrightarrow>
   applyMoves rods (computeMoves (int n) from to [a] []) =
     Inr (rods[from := base, to := rods ! to @ rev [1..<Suc n]]) \<and>
   allLegal rods (computeMoves (int n) from to [a] [])"
proof (induction n arbitrary: rods "from" to a base)
  case 0
  have "rods ! from = base" using "0.prems"(7) by simp
  then have "rods[from := base, to := rods ! to] = rods"
    by (intro nth_equalityI) (auto simp: nth_list_update)
  then show ?case by (simp add: computeMoves_le0)
next
  case (Suc n)
  let ?top = "rev [1..<Suc n]"
  let ?A = "computeMoves (int n) from a [to] []"
  let ?B = "computeMoves (int n) a to [from] []"
  define rods1 where "rods1 = rods[from := base @ [Suc n], a := rods ! a @ ?top]"
  define rods2 where "rods2 = rods1[from := base, to := rods ! to @ [Suc n]]"
  define rods3 where "rods3 = rods2[a := rods ! a, to := (rods ! to @ [Suc n]) @ ?top]"
  have src: "rods ! from = (base @ [Suc n]) @ ?top"
    using Suc.prems(7) by (simp del: upt_Suc add: rev_upt_Suc)
  have first: "applyMoves rods ?A = Inr rods1 \<and> allLegal rods ?A"
    unfolding rods1_def
  proof (rule Suc.IH [OF _ _ _ _ _ _ src])
    show "from < length rods" "a < length rods" "to < length rods" "from \<noteq> a" "from \<noteq> to" "a \<noteq> to"
      using Suc.prems by simp_all
    show "n < x" if "x \<in> set (base @ [Suc n])" for x
      using that Suc.prems(8) [of x] by auto
    show "n < x" if "x \<in> set (rods ! a)" for x
      using that Suc.prems(10) [of x] by simp
    show "n < x" if "x \<in> set (rods ! to)" for x
      using that Suc.prems(9) [of x] by simp
  qed
  have len1: "length rods1 = length rods" by (simp add: rods1_def)
  have r1f: "rods1 ! from = base @ [Suc n]"
    using Suc.prems by (simp add: rods1_def)
  have r1t: "rods1 ! to = rods ! to"
    using Suc.prems by (simp add: rods1_def)
  have legal: "isLegalMove rods1 from to"
  proof -
    have "rods ! to = [] \<or> Suc n < last (rods ! to)"
      using Suc.prems(9) [of "last (rods ! to)"] by (cases "rods ! to = []") simp_all
    then show ?thesis
      using Suc.prems by (simp add: isLegalMove_def len1 r1f r1t)
  qed
  have middle: "applyMove rods1 (from, to) = Inr rods2"
    using legal Suc.prems
    by (simp add: applyMove_in_range len1 r1f r1t rods2_def)
  have len2: "length rods2 = length rods" by (simp add: rods2_def len1)
  have r2a: "rods2 ! a = rods ! a @ ?top"
    using Suc.prems by (simp add: rods2_def rods1_def)
  have r2t: "rods2 ! to = rods ! to @ [Suc n]"
    using Suc.prems by (simp add: rods2_def rods1_def)
  have r2f: "rods2 ! from = base"
    using Suc.prems by (simp add: rods2_def rods1_def)
  have second: "applyMoves rods2 ?B =
                  Inr (rods2[a := rods ! a, to := rods2 ! to @ ?top]) \<and> allLegal rods2 ?B"
  proof (rule Suc.IH [OF _ _ _ _ _ _ r2a])
    show "a < length rods2" "to < length rods2" "from < length rods2" "a \<noteq> to" "a \<noteq> from" "to \<noteq> from"
      using Suc.prems by (simp_all add: len2)
    show "n < x" if "x \<in> set (rods ! a)" for x
      using that Suc.prems(10) [of x] by simp
    show "n < x" if "x \<in> set (rods2 ! to)" for x
      using that Suc.prems(9) [of x] by (auto simp: r2t)
    show "n < x" if "x \<in> set (rods2 ! from)" for x
      using that Suc.prems(8) [of x] by (auto simp: r2f)
  qed
  then have second': "applyMoves rods2 ?B = Inr rods3" "allLegal rods2 ?B"
    by (simp_all add: rods3_def r2t)
  have final: "rods3 = rods[from := base, to := rods ! to @ rev [1..<Suc (Suc n)]]"
  proof (rule nth_equalityI)
    show "length rods3 = length (rods[from := base, to := rods ! to @ rev [1..<Suc (Suc n)]])"
      by (simp add: rods3_def len2)
  next
    fix i
    assume "i < length rods3"
    then have i: "i < length rods" by (simp add: rods3_def len2)
    show "rods3 ! i = rods[from := base, to := rods ! to @ rev [1..<Suc (Suc n)]] ! i"
      using i Suc.prems(1-6)
      by (simp add: rods3_def rods2_def rods1_def nth_list_update rev_upt_Suc del: upt_Suc)
  qed
  have run1: "applyMoves rods (?A @ [(from, to)]) = Inr rods2"
    using first middle by (simp add: applyMoves_append)
  have legal1: "allLegal rods (?A @ [(from, to)])"
    using first middle legal by (simp add: allLegal_append [of rods ?A rods1])
  have "applyMoves rods ((?A @ [(from, to)]) @ ?B) = Inr rods3"
    using run1 second'(1) by (simp only: applyMoves_append [of rods "?A @ [(from, to)]"] sum.case)
  moreover have "allLegal rods ((?A @ [(from, to)]) @ ?B)"
    using legal1 second'(2) by (simp only: allLegal_append [OF run1])
  ultimately show ?case
    by (simp only: computeMoves_Suc final append_assoc)
qed

lemma startSolve_3: "fst (startSolve 3 diskCount) = computeMoves (int diskCount) 0 2 [1] []"
proof -
  have "filter (\<lambda>i. i \<noteq> 0 \<and> i \<noteq> 3 - 1) [0..<3] = [1::nat]"
    by (simp add: upt_conv_Cons)
  then show ?thesis
    by (simp add: startSolve_def computeMovesWithTrace_moves)
qed

text \<open>
  C1: with three pegs, playing the moves of a solve request in order from the initial
  state, every move is legal in the state reached so far, no call of \<^verbatim>\<open>applyMove\<close> fails,
  and the final state has all \<open>diskCount\<close> disks on peg 2, the last peg, in their
  initial order, and the other two pegs empty.
\<close>

theorem three_peg_round_trip:
  "allLegal (generateInitialRods 3 diskCount) (fst (startSolve 3 diskCount)) \<and>
   applyMoves (generateInitialRods 3 diskCount) (fst (startSolve 3 diskCount)) =
     Inr [[], [], rev [1..<Suc diskCount]] \<and>
   generateInitialRods 3 diskCount = [rev [1..<Suc diskCount], [], []]"
proof -
  let ?rods = "[rev [1..<Suc diskCount], [], []]"
  have init: "generateInitialRods 3 diskCount = ?rods"
    by (simp add: generateInitialRods_eq eval_nat_numeral del: upt_Suc)
  have "applyMoves ?rods (computeMoves (int diskCount) 0 2 [1] []) =
          Inr (?rods[0 := [], 2 := ?rods ! 2 @ rev [1..<Suc diskCount]]) \<and>
        allLegal ?rods (computeMoves (int diskCount) 0 2 [1] [])"
    by (rule hanoi_three_pegs) (simp_all del: upt_Suc)
  then show ?thesis
    by (simp add: init startSolve_3 del: upt_Suc)
qed

theorem three_peg_round_trip_witness:
  "fst (startSolve 3 3) = [(0, 2), (0, 1), (2, 1), (0, 2), (1, 0), (1, 2), (0, 2)] \<and>
   allLegal [[3, 2, 1], [], []] [(0, 2), (0, 1), (2, 1), (0, 2), (1, 0), (1, 2), (0, 2)] \<and>
   applyMoves [[3, 2, 1], [], []] [(0, 2), (0, 1), (2, 1), (0, 2), (1, 0), (1, 2), (0, 2)] =
     Inr [[], [], [3, 2, 1]]"
proof -
  have moves: "fst (startSolve 3 3) = [(0, 2), (0, 1), (2, 1), (0, 2), (1, 0), (1, 2), (0, 2)]"
    by code_simp
  have tower: "rev [1..<Suc 3] = [3, 2, 1::nat]"
    by (simp add: upt_conv_Cons)
  note t = three_peg_round_trip [of 3, unfolded tower moves]
  have init: "generateInitialRods 3 3 = [[3, 2, 1], [], []]"
    by (rule conjunct2 [OF conjunct2 [OF t]])
  show ?thesis
    using moves t [unfolded init] by blast
qed

end
